theory Spec2Isabelle
  imports Main
begin

section \<open>Strings and the Unicode database\<close>

text \<open>
  A Python \<open>str\<close> is a sequence of Unicode code points; a key is modelled as the list
  of its code points. \<open>str\<close> turns an ASCII literal into such a list.
\<close>

type_synonym pystr = "nat list"

definition str :: "string \<Rightarrow> pystr" where
  "str s = map of_char s"

definition ascii :: "pystr \<Rightarrow> bool" where
  "ascii s \<longleftrightarrow> list_all (\<lambda>c. c < 128) s"

text \<open>
  The case mappings, the cased and case-ignorable properties, the digit property and the
  case-insensitive comparison of the regular expression engine come from the Unicode
  database of the Python runtime, which is not part of the program. On the ASCII range
  they are written out below. Beyond ASCII the database is a parameter \<open>U\<close> of every
  operation: \<open>uc_lower\<close> and \<open>uc_title\<close> are the full lowercase and titlecase mappings of
  one code point, \<open>uc_ignorecase p c\<close> says whether the code point \<open>c\<close> matches the
  pattern letter \<open>p\<close> under \<open>re.IGNORECASE\<close>.
\<close>

record unicode =
  uc_cased :: "nat \<Rightarrow> bool"
  uc_case_ignorable :: "nat \<Rightarrow> bool"
  uc_lower :: "nat \<Rightarrow> pystr"
  uc_title :: "nat \<Rightarrow> pystr"
  uc_digit :: "nat \<Rightarrow> bool"
  uc_ignorecase :: "nat \<Rightarrow> nat \<Rightarrow> bool"

text \<open>
  The entries of the database for U+00B2 (superscript two, a digit for \<open>str.isdigit\<close>),
  U+0130 (capital I with dot above: cased, lowercase \<open>i\<close> followed by U+0307, its own
  titlecase, equal to the letter \<open>i\<close> under \<open>re.IGNORECASE\<close>) and U+0307 (combining
  dot above: case-ignorable, not cased, without case mappings). It serves to evaluate the
  operations on keys made of ASCII characters and these three code points; it says
  nothing about other code points.
\<close>

definition unicode_excerpt :: unicode where
  "unicode_excerpt =
     \<lparr> uc_cased = (\<lambda>c. c = 0x130),
       uc_case_ignorable = (\<lambda>c. c = 0x307),
       uc_lower = (\<lambda>c. if c = 0x130 then [0x69, 0x307] else [c]),
       uc_title = (\<lambda>c. [c]),
       uc_digit = (\<lambda>c. c = 0xB2),
       uc_ignorecase = (\<lambda>p c. c = 0x130 \<and> (p = 0x49 \<or> p = 0x69)) \<rparr>"

definition is_upper :: "nat \<Rightarrow> bool" where
  "is_upper c \<longleftrightarrow> 0x41 \<le> c \<and> c \<le> 0x5A"

definition is_lower :: "nat \<Rightarrow> bool" where
  "is_lower c \<longleftrightarrow> 0x61 \<le> c \<and> c \<le> 0x7A"

definition ascii_lower :: "nat \<Rightarrow> nat" where
  "ascii_lower c = (if is_upper c then c + 32 else c)"

definition ascii_upper :: "nat \<Rightarrow> nat" where
  "ascii_upper c = (if is_lower c then c - 32 else c)"

definition is_cased :: "unicode \<Rightarrow> nat \<Rightarrow> bool" where
  "is_cased U c = (if c < 128 then is_upper c \<or> is_lower c else uc_cased U c)"

text \<open>The case-ignorable ASCII characters are \<open>'\<close>, \<open>.\<close>, \<open>:\<close>, \<open>^\<close> and the backquote.\<close>

definition is_case_ignorable :: "unicode \<Rightarrow> nat \<Rightarrow> bool" where
  "is_case_ignorable U c =
     (if c < 128 then c \<in> set [0x27, 0x2E, 0x3A, 0x5E, 0x60] else uc_case_ignorable U c)"

definition is_digit :: "unicode \<Rightarrow> nat \<Rightarrow> bool" where
  "is_digit U c = (if c < 128 then 0x30 \<le> c \<and> c \<le> 0x39 else uc_digit U c)"

definition to_lower :: "unicode \<Rightarrow> nat \<Rightarrow> pystr" where
  "to_lower U c = (if c < 128 then [ascii_lower c] else uc_lower U c)"

definition to_title :: "unicode \<Rightarrow> nat \<Rightarrow> pystr" where
  "to_title U c = (if c < 128 then [ascii_upper c] else uc_title U c)"

text \<open>
  Lowercasing inside a string treats the capital sigma U+03A3 by its context: it becomes
  the final sigma U+03C2 when, skipping case-ignorable characters, a cased character
  precedes it and no cased character follows it, and the small sigma U+03C3 otherwise.
  \<open>seen\<close> is the text in front of the character, nearest character first.
\<close>

definition final_sigma :: "unicode \<Rightarrow> pystr \<Rightarrow> pystr \<Rightarrow> bool" where
  "final_sigma U seen rest \<longleftrightarrow>
     (case dropWhile (is_case_ignorable U) seen of [] \<Rightarrow> False | c # _ \<Rightarrow> is_cased U c) \<and>
     (case dropWhile (is_case_ignorable U) rest of [] \<Rightarrow> True | c # _ \<Rightarrow> \<not> is_cased U c)"

definition lower_at :: "unicode \<Rightarrow> pystr \<Rightarrow> nat \<Rightarrow> pystr \<Rightarrow> pystr" where
  "lower_at U seen c rest =
     (if c = 0x3A3 then [if final_sigma U seen rest then 0x3C2 else 0x3C3]
      else to_lower U c)"

text \<open>
  \<open>str.title()\<close>: a character that follows a cased character is lowercased, any other
  character is titlecased; the flag is the casedness of the character just read.
\<close>

fun title_from :: "unicode \<Rightarrow> bool \<Rightarrow> pystr \<Rightarrow> pystr \<Rightarrow> pystr" where
  "title_from U previous_is_cased seen [] = []"
| "title_from U previous_is_cased seen (c # cs) =
     (if previous_is_cased then lower_at U seen c cs else to_title U c)
       @ title_from U (is_cased U c) (c # seen) cs"

definition title :: "unicode \<Rightarrow> pystr \<Rightarrow> pystr" where
  "title U s = title_from U False [] s"

text \<open>\<open>k.split(':', 1)[0]\<close>: the text before the first colon, all of \<open>k\<close> without one.\<close>

definition split_head :: "pystr \<Rightarrow> pystr" where
  "split_head k = takeWhile (\<lambda>c. c \<noteq> 0x3A) k"

text \<open>\<open>k.rstrip(':')\<close>: \<open>k\<close> without the colons at its end.\<close>

definition rstrip :: "pystr \<Rightarrow> pystr" where
  "rstrip k = rev (dropWhile (\<lambda>c. c = 0x3A) (rev k))"

text \<open>\<open>s.isdigit()\<close>: at least one character, and every character a digit.\<close>

definition isdigit :: "unicode \<Rightarrow> pystr \<Rightarrow> bool" where
  "isdigit U s \<longleftrightarrow> s \<noteq> [] \<and> list_all (is_digit U) s"

section \<open>Regular expressions of the key patterns\<close>

text \<open>
  The patterns of \<open>KEY_PATTERNS\<close> are sequences of single ASCII characters and of the
  dot, each taken once or under one of the quantifiers \<open>?\<close>, \<open>*\<close>, \<open>+\<close>. \<open>re.match\<close>
  succeeds when some prefix of the subject matches the pattern. Under \<open>re.IGNORECASE\<close>
  a pattern letter matches an ASCII character that is the same letter in either case, and
  the code points beyond ASCII that the database gives; a pattern character that is no
  letter matches itself only. Without \<open>re.DOTALL\<close> the dot matches every character but
  the newline.
\<close>

datatype atom = Lit nat | Dot

datatype quant = Once | Opt | Star | Plus

type_synonym regex = "(atom \<times> quant) list"

fun atom_match :: "unicode \<Rightarrow> atom \<Rightarrow> nat \<Rightarrow> bool" where
  "atom_match U (Lit c) x \<longleftrightarrow>
     (if is_upper c \<or> is_lower c
      then (if x < 128 then ascii_lower x = ascii_lower c else uc_ignorecase U c x)
      else x = c)"
| "atom_match U Dot x \<longleftrightarrow> x \<noteq> 0x0A"

function re_match :: "unicode \<Rightarrow> regex \<Rightarrow> pystr \<Rightarrow> bool" where
  "re_match U [] s \<longleftrightarrow> True"
| "re_match U ((a, Once) # r) [] \<longleftrightarrow> False"
| "re_match U ((a, Once) # r) (x # xs) \<longleftrightarrow> atom_match U a x \<and> re_match U r xs"
| "re_match U ((a, Opt) # r) [] \<longleftrightarrow> re_match U r []"
| "re_match U ((a, Opt) # r) (x # xs) \<longleftrightarrow>
     (atom_match U a x \<and> re_match U r xs) \<or> re_match U r (x # xs)"
| "re_match U ((a, Star) # r) [] \<longleftrightarrow> re_match U r []"
| "re_match U ((a, Star) # r) (x # xs) \<longleftrightarrow>
     (atom_match U a x \<and> re_match U ((a, Star) # r) xs) \<or> re_match U r (x # xs)"
| "re_match U ((a, Plus) # r) [] \<longleftrightarrow> False"
| "re_match U ((a, Plus) # r) (x # xs) \<longleftrightarrow>
     atom_match U a x \<and> re_match U ((a, Star) # r) xs"
  by pat_completeness auto
termination
  by (relation "measure (\<lambda>(U, r, s). length r + length s)") auto

definition lits :: "string \<Rightarrow> regex" where
  "lits s = map (\<lambda>c. (Lit c, Once)) (str s)"

definition KEY_PATTERNS :: "regex list" where
  "KEY_PATTERNS =
    [lits ''Chat History with '' @ [(Dot, Plus)],
     lits ''comment'' @ [(Lit 0x73, Opt), (Lit 0x3A, Once), (Dot, Star)],
     lits ''replie'' @ [(Lit 0x73, Opt), (Lit 0x3A, Once), (Dot, Star)],
     lits ''post'' @ [(Lit 0x73, Opt), (Lit 0x3A, Once), (Dot, Star)],
     lits ''story:'' @ [(Dot, Star)]]"

section \<open>The key sanitizer\<close>

text \<open>
  The loop of \<open>sanitize_key\<close> over the patterns returns at the first pattern that
  matches; the value returned there does not depend on the pattern.
\<close>

fun sanitize_loop :: "unicode \<Rightarrow> regex list \<Rightarrow> pystr \<Rightarrow> pystr" where
  "sanitize_loop U [] k = rstrip k"
| "sanitize_loop U (pat # pats) k =
     (if re_match U pat k then title U (split_head k) else sanitize_loop U pats k)"

definition sanitize_key :: "unicode \<Rightarrow> pystr \<Rightarrow> pystr" where
  "sanitize_key U k = sanitize_loop U KEY_PATTERNS k"

section \<open>JSON values\<close>

text \<open>
  What \<open>json.loads\<close> returns: a \<open>dict\<close> with string keys, a \<open>list\<close>, or a scalar
  (\<open>str\<close>, \<open>int\<close>, \<open>float\<close>, \<open>bool\<close>, \<open>None\<close>). A \<open>dict\<close> is the list of its items in
  insertion order; a finite \<open>float\<close> is kept as mantissa and exponent. The program
  never looks inside a scalar.
\<close>

datatype json =
    JObject "(pystr \<times> json) list"
  | JArray "json list"
  | JString pystr
  | JInt int
  | JFloat int int
  | JBool bool
  | JNull

text \<open>
  \<open>d[k] = v\<close> on a \<open>dict\<close>: a key already present keeps its place and takes the new
  value, a new key goes to the end.
\<close>

fun dict_set :: "('k \<times> 'v) list \<Rightarrow> 'k \<Rightarrow> 'v \<Rightarrow> ('k \<times> 'v) list" where
  "dict_set [] k v = [(k, v)]"
| "dict_set ((k', v') # d) k v =
     (if k' = k then (k', v) # d else (k', v') # dict_set d k v)"

text \<open>
  A dict comprehension \<open>{key: value for ...}\<close> stores its items one after the other, in
  the order of the iteration, into a \<open>dict\<close> that starts empty.
\<close>

definition dict_of_items :: "('k \<times> 'v) list \<Rightarrow> ('k \<times> 'v) list" where
  "dict_of_items items = fold (\<lambda>(k, v) d. dict_set d k v) items []"

section \<open>The tree transformer\<close>

fun extract_keys :: "unicode \<Rightarrow> json \<Rightarrow> pystr set" where
  "extract_keys U (JObject kvs) =
     fold (\<lambda>(k, v) keys.
             (if \<not> isdigit U (sanitize_key U k) then insert (sanitize_key U k) keys else keys)
               \<union> extract_keys U v)
          kvs {}"
| "extract_keys U (JArray xs) = fold (\<lambda>i keys. keys \<union> extract_keys U i) xs {}"
| "extract_keys U obj = {}"

fun anonymize :: "unicode \<Rightarrow> json \<Rightarrow> pystr set \<Rightarrow> json" where
  "anonymize U (JObject kvs) ppi_set =
     JObject (dict_of_items
       (map (\<lambda>(k, v). (sanitize_key U k,
                        if sanitize_key U k \<in> ppi_set then JString (str ''REDACTED'')
                        else anonymize U v ppi_set))
            kvs))"
| "anonymize U (JArray xs) ppi_set = JArray (map (\<lambda>i. anonymize U i ppi_set) xs)"
| "anonymize U obj ppi_set = obj"

section \<open>Notions of the specification\<close>

text \<open>A raw key matches a key pattern rule when \<open>re.match\<close> succeeds for one of the patterns.\<close>

definition matches_rule :: "unicode \<Rightarrow> pystr \<Rightarrow> bool" where
  "matches_rule U k = list_ex (\<lambda>pat. re_match U pat k) KEY_PATTERNS"

text \<open>A key composed entirely of decimal digits: it has a character, and each one is a digit.\<close>

definition all_digits :: "pystr \<Rightarrow> bool" where
  "all_digits k \<longleftrightarrow> k \<noteq> [] \<and> set k \<subseteq> set (str ''0123456789'')"

text \<open>The items of an object, in order; a value that is no object has none.\<close>

fun object_items :: "json \<Rightarrow> (pystr \<times> json) list" where
  "object_items (JObject kvs) = kvs"
| "object_items obj = []"

text \<open>The value that redaction stores for one item of an object.\<close>

definition redacted_value :: "unicode \<Rightarrow> pystr set \<Rightarrow> pystr \<times> json \<Rightarrow> json" where
  "redacted_value U ppi_set kv =
     (if sanitize_key U (fst kv) \<in> ppi_set then JString (str ''REDACTED'')
      else anonymize U (snd kv) ppi_set)"

text \<open>The keys that appear in a tree, at any depth.\<close>

fun all_keys :: "json \<Rightarrow> pystr set" where
  "all_keys (JObject kvs) = (\<Union>(k, v) \<in> set kvs. insert k (all_keys v))"
| "all_keys (JArray xs) = (\<Union>x \<in> set xs. all_keys x)"
| "all_keys obj = {}"

text \<open>
  Structural isomorphism of an input tree and a redacted tree, level by level: an object
  against an object with as many entries, in the same order, each under the canonical form
  of the input's key, holding the marker when that key is in the redaction set and a tree
  isomorphic to the input's value otherwise; an array against an array of the same length,
  element by element; a scalar against itself.
\<close>

function same_shape :: "unicode \<Rightarrow> pystr set \<Rightarrow> json \<Rightarrow> json \<Rightarrow> bool" where
  "same_shape U S (JObject kvs) (JObject kvs') \<longleftrightarrow>
     length kvs' = length kvs \<and>
     (\<forall>(kv, kv') \<in> set (zip kvs kvs').
        fst kv' = sanitize_key U (fst kv) \<and>
        (if sanitize_key U (fst kv) \<in> S then snd kv' = JString (str ''REDACTED'')
         else same_shape U S (snd kv) (snd kv')))"
| "same_shape U S (JArray xs) (JArray xs') \<longleftrightarrow>
     length xs' = length xs \<and> (\<forall>(x, x') \<in> set (zip xs xs'). same_shape U S x x')"
| "same_shape U S (JObject kvs) (JArray xs') \<longleftrightarrow> False"
| "same_shape U S (JObject kvs) (JString s') \<longleftrightarrow> False"
| "same_shape U S (JObject kvs) (JInt n') \<longleftrightarrow> False"
| "same_shape U S (JObject kvs) (JFloat m' e') \<longleftrightarrow> False"
| "same_shape U S (JObject kvs) (JBool b') \<longleftrightarrow> False"
| "same_shape U S (JObject kvs) JNull \<longleftrightarrow> False"
| "same_shape U S (JArray xs) (JObject kvs') \<longleftrightarrow> False"
| "same_shape U S (JArray xs) (JString s') \<longleftrightarrow> False"
| "same_shape U S (JArray xs) (JInt n') \<longleftrightarrow> False"
| "same_shape U S (JArray xs) (JFloat m' e') \<longleftrightarrow> False"
| "same_shape U S (JArray xs) (JBool b') \<longleftrightarrow> False"
| "same_shape U S (JArray xs) JNull \<longleftrightarrow> False"
| "same_shape U S (JString s) t' \<longleftrightarrow> t' = JString s"
| "same_shape U S (JInt n) t' \<longleftrightarrow> t' = JInt n"
| "same_shape U S (JFloat m e) t' \<longleftrightarrow> t' = JFloat m e"
| "same_shape U S (JBool b) t' \<longleftrightarrow> t' = JBool b"
| "same_shape U S JNull t' \<longleftrightarrow> t' = JNull"
  by pat_completeness auto
termination
proof (relation "measure (\<lambda>(U, S, t, t'). size t)", goal_cases)
  case 1
  show ?case by simp
next
  case (2 U S kvs kvs' z kv kv')
  then have "kv \<in> set kvs" by (auto dest: set_zip_leftD)
  then have "size (snd kv) \<le> size_list (size_prod (\<lambda>x. 0) size) kvs"
    by (rule size_list_estimation') (cases kv, simp)
  then show ?case by simp
next
  case (3 U S xs xs' z x x')
  then have "x \<in> set xs" by (auto dest: set_zip_leftD)
  then have "size x \<le> size_list size xs"
    by (rule size_list_estimation') simp
  then show ?case by simp
qed

text \<open>
  No two keys of one object share a canonical form, in every object that redaction with
  the set \<open>S\<close> reaches (it does not enter the value of a redacted key).
\<close>

fun collision_free :: "unicode \<Rightarrow> pystr set \<Rightarrow> json \<Rightarrow> bool" where
  "collision_free U S (JObject kvs) \<longleftrightarrow>
     distinct (map (\<lambda>kv. sanitize_key U (fst kv)) kvs) \<and>
     (\<forall>kv \<in> set kvs. sanitize_key U (fst kv) \<notin> S \<longrightarrow> collision_free U S (snd kv))"
| "collision_free U S (JArray xs) \<longleftrightarrow> (\<forall>x \<in> set xs. collision_free U S x)"
| "collision_free U S obj \<longleftrightarrow> True"

section \<open>Properties of the string operations\<close>

subsection \<open>ASCII characters\<close>

lemma ascii_lower_less: "c < 128 \<Longrightarrow> ascii_lower c < 128"
  by (simp add: ascii_lower_def is_upper_def)

lemma ascii_upper_less: "c < 128 \<Longrightarrow> ascii_upper c < 128"
  unfolding ascii_upper_def is_lower_def by arith







lemma lower_at_ascii: "c < 128 \<Longrightarrow> lower_at U seen c rest = [ascii_lower c]"
  by (simp add: lower_at_def to_lower_def)

lemma to_title_ascii: "c < 128 \<Longrightarrow> to_title U c = [ascii_upper c]"
  by (simp add: to_title_def)

lemma is_cased_ascii: "c < 128 \<Longrightarrow> is_cased U c = (is_upper c \<or> is_lower c)"
  by (simp add: is_cased_def)

lemma is_digit_iff: "c < 128 \<Longrightarrow> is_digit U c \<longleftrightarrow> c \<in> set (str ''0123456789'')"
proof -
  assume "c < 128"
  then have "is_digit U c \<longleftrightarrow> 48 \<le> c \<and> c \<le> 57" by (simp add: is_digit_def)
  also have "\<dots> \<longleftrightarrow> c \<in> {48, 49, 50, 51, 52, 53, 54, 55, 56, 57}"
    unfolding insert_iff empty_iff by arith
  also have "{48, 49, 50, 51, 52, 53, 54, 55, 56, 57} = set (str ''0123456789'')"
    by (simp add: str_def)
  finally show ?thesis .
qed

subsection \<open>Title case, splitting and stripping\<close>

text \<open>
  On an ASCII string one step of \<open>title_from\<close> writes one ASCII character, which
  depends neither on the database nor on the context.
\<close>

lemma title_from_ascii_Cons:
  "c < 128 \<Longrightarrow>
   title_from U p seen (c # cs) =
     (if p then ascii_lower c else ascii_upper c)
       # title_from U (is_upper c \<or> is_lower c) (c # seen) cs"
  by (simp add: lower_at_ascii to_title_ascii is_cased_ascii)



lemma ascii_title_from: "ascii s \<Longrightarrow> ascii (title_from U p seen s)"
proof (induction s arbitrary: p seen)
  case Nil
  show ?case by (simp add: ascii_def)
next
  case (Cons c cs)
  from Cons.prems have c: "c < 128" and cs: "ascii cs" by (simp_all add: ascii_def)
  from c have "(if p then ascii_lower c else ascii_upper c) < 128"
    by (simp add: ascii_lower_less ascii_upper_less)
  with Cons.IH [OF cs, of "is_upper c \<or> is_lower c" "c # seen"] show ?case
    by (simp only: title_from_ascii_Cons [OF c]) (simp add: ascii_def)
qed






lemma rstrip_decomp: "\<exists>n. k = rstrip k @ replicate n 0x3A"
proof -
  have "\<exists>n. xs = replicate n 0x3A @ dropWhile (\<lambda>c. c = 0x3A) xs" for xs :: pystr
  proof (induction xs)
    case Nil
    show ?case by simp
  next
    case (Cons x xs)
    then obtain n where n: "xs = replicate n 0x3A @ dropWhile (\<lambda>c. c = 0x3A) xs" ..
    show ?case
    proof (cases "x = 0x3A")
      case True
      with n have "x # xs = replicate (Suc n) 0x3A @ dropWhile (\<lambda>c. c = 0x3A) (x # xs)"
        by simp
      then show ?thesis ..
    next
      case False
      then have "x # xs = replicate 0 0x3A @ dropWhile (\<lambda>c. c = 0x3A) (x # xs)"
        by simp
      then show ?thesis ..
    qed
  qed
  then obtain n where "rev k = replicate n 0x3A @ dropWhile (\<lambda>c. c = 0x3A) (rev k)" ..
  then have "rev (rev k) = rev (replicate n 0x3A @ dropWhile (\<lambda>c. c = 0x3A) (rev k))"
    by simp
  then have "k = rstrip k @ replicate n 0x3A"
    by (simp add: rstrip_def)
  then show ?thesis ..
qed

lemma rstrip_last: "rstrip k = [] \<or> last (rstrip k) \<noteq> 0x3A"
proof (cases "dropWhile (\<lambda>c. c = 0x3A) (rev k)")
  case Nil
  then show ?thesis by (simp add: rstrip_def)
next
  case (Cons x xs)
  then have "x \<noteq> 0x3A" using hd_dropWhile [of "\<lambda>c. c = 0x3A" "rev k"] by auto
  with Cons show ?thesis by (simp add: rstrip_def)
qed


subsection \<open>Matching\<close>


lemma sanitize_loop_eq:
  "sanitize_loop U pats k =
     (if list_ex (\<lambda>pat. re_match U pat k) pats then title U (split_head k) else rstrip k)"
  by (induction pats) simp_all

lemma sanitize_key_eq:
  "sanitize_key U k = (if matches_rule U k then title U (split_head k) else rstrip k)"
  by (simp add: sanitize_key_def matches_rule_def sanitize_loop_eq)






section \<open>Claims about the key sanitizer\<close>

text \<open>
  C5, as the code has it: the raw key \<open>Chat History with Alice:\<close> matches the first
  pattern, so the text before its first colon is title-cased, which gives
  \<open>Chat History With Alice\<close>.
\<close>

theorem sanitize_key_chat_history:
  "sanitize_key U (str ''Chat History with Alice:'') = str ''Chat History With Alice''"
  by code_simp

text \<open>C5, as the specification states it, fails: the result is not \<open>Chat History\<close>.\<close>

theorem sanitize_key_chat_history_counterexample:
  "sanitize_key unicode_excerpt (str ''Chat History with Alice:'') \<noteq> str ''Chat History''"
  by code_simp

text \<open>
  C6, as the code has it: a raw key that matches no pattern rule loses all the colons at
  its end and is otherwise unchanged. The result is a prefix of the key, what was cut off
  consists of colons only, and the result does not end with a colon.
\<close>

theorem sanitize_key_unmatched:
  assumes "\<not> matches_rule U k"
  shows "(\<exists>n. k = sanitize_key U k @ replicate n 0x3A) \<and>
         (sanitize_key U k = [] \<or> last (sanitize_key U k) \<noteq> 0x3A)"
proof -
  from assms have "sanitize_key U k = rstrip k" by (simp add: sanitize_key_eq)
  then show ?thesis using rstrip_decomp [of k] rstrip_last [of k] by simp
qed

theorem sanitize_key_unmatched_witness:
  "\<not> matches_rule unicode_excerpt (str ''Plain_Key:::'') \<and>
   (\<exists>n. str ''Plain_Key:::'' = sanitize_key unicode_excerpt (str ''Plain_Key:::'') @ replicate n 0x3A) \<and>
   (sanitize_key unicode_excerpt (str ''Plain_Key:::'') = [] \<or>
    last (sanitize_key unicode_excerpt (str ''Plain_Key:::'')) \<noteq> 0x3A)"
proof -
  have h: "\<not> matches_rule unicode_excerpt (str ''Plain_Key:::'')" by code_simp
  from sanitize_key_unmatched [OF h] h show ?thesis by blast
qed

text \<open>
  C6, as the specification states it, fails: the key \<open>k::\<close> matches no pattern rule and
  sanitizes to \<open>k\<close>, both colons removed, not to \<open>k:\<close>.
\<close>

theorem sanitize_key_two_colons_counterexample:
  "\<not> matches_rule unicode_excerpt (str ''k::'') \<and>
   sanitize_key unicode_excerpt (str ''k::'') = str ''k'' \<and>
   sanitize_key unicode_excerpt (str ''k::'') \<noteq> str ''k:''"
  by code_simp

text \<open>
  C7: the three literal equations of the key sanitizer: \<open>comments: foo\<close> gives
  \<open>Comments\<close>, \<open>plain_key:\<close> gives \<open>plain_key\<close>, and \<open>plain_key\<close> is unchanged.
\<close>

theorem sanitize_key_literals:
  "sanitize_key U (str ''comments: foo'') = str ''Comments'' \<and>
   sanitize_key U (str ''plain_key:'') = str ''plain_key'' \<and>
   sanitize_key U (str ''plain_key'') = str ''plain_key''"
  by code_simp




section \<open>Properties of dictionaries\<close>

lemma dict_set_keys:
  "map fst (dict_set d k v) = (if k \<in> fst ` set d then map fst d else map fst d @ [k])"
proof (induction d)
  case Nil
  show ?case by simp
next
  case (Cons kv d)
  obtain k' v' where kv: "kv = (k', v')" by (cases kv)
  show ?case
  proof (cases "k' = k")
    case True
    with kv show ?thesis by simp
  next
    case False
    with kv Cons show ?thesis by (cases "k \<in> fst ` set d") simp_all
  qed
qed

lemma dict_set_fresh: "k \<notin> fst ` set d \<Longrightarrow> dict_set d k v = d @ [(k, v)]"
  by (induction d) auto

lemma set_dict_set: "set (dict_set d k v) \<subseteq> insert (k, v) (set d)"
proof (induction d)
  case Nil
  show ?case by simp
next
  case (Cons kv d)
  obtain k' v' where kv: "kv = (k', v')" by (cases kv)
  show ?case
  proof (cases "k' = k")
    case True
    with kv show ?thesis by auto
  next
    case False
    with kv Cons show ?thesis by auto
  qed
qed

lemma map_of_dict_set: "map_of (dict_set d k v) = (map_of d)(k \<mapsto> v)"
  by (induction d) (auto simp: fun_eq_iff)

lemma fold_dict_set_distinct:
  "distinct (map fst d) \<Longrightarrow> distinct (map fst (fold (\<lambda>(k, v) d. dict_set d k v) items d))"
  by (induction items arbitrary: d) (auto simp: dict_set_keys)

lemma fold_dict_set_keys:
  "fst ` set (fold (\<lambda>(k, v) d. dict_set d k v) items d) = fst ` set d \<union> fst ` set items"
proof (induction items arbitrary: d)
  case Nil
  show ?case by simp
next
  case (Cons kv items)
  obtain k v where kv: "kv = (k, v)" by (cases kv)
  have "fst ` set (dict_set d k v) = insert k (fst ` set d)"
    using dict_set_keys [of d k v] by (metis (no_types) list.set_map set_append list.set(1,2)
      insert_absorb Un_insert_right sup_bot.right_neutral)
  with Cons.IH [of "dict_set d k v"] kv show ?case by auto
qed

lemma fold_dict_set_subset:
  "set (fold (\<lambda>(k, v) d. dict_set d k v) items d) \<subseteq> set d \<union> set items"
proof (induction items arbitrary: d)
  case Nil
  show ?case by simp
next
  case (Cons kv items)
  obtain k v where kv: "kv = (k, v)" by (cases kv)
  from Cons.IH [of "dict_set d k v"] set_dict_set [of d k v] kv show ?case by auto
qed

lemma fold_dict_set_map_of:
  "map_of (fold (\<lambda>(k, v) d. dict_set d k v) items d) = map_of d ++ map_of (rev items)"
proof (induction items arbitrary: d)
  case Nil
  show ?case by simp
next
  case (Cons kv items)
  obtain k v where kv: "kv = (k, v)" by (cases kv)
  have "map_of (fold (\<lambda>(k, v) d. dict_set d k v) (kv # items) d)
          = map_of (fold (\<lambda>(k, v) d. dict_set d k v) items (dict_set d k v))"
    using kv by simp
  also have "\<dots> = map_of (dict_set d k v) ++ map_of (rev items)"
    by (rule Cons.IH)
  also have "\<dots> = (map_of d)(k \<mapsto> v) ++ map_of (rev items)"
    by (simp only: map_of_dict_set)
  also have "\<dots> = map_of d ++ map_of (rev (kv # items))"
    unfolding kv by (auto simp: fun_eq_iff map_add_def split: option.splits)
  finally show ?case .
qed

lemma fold_dict_set_fresh:
  "distinct (map fst (d @ items)) \<Longrightarrow> fold (\<lambda>(k, v) d. dict_set d k v) items d = d @ items"
proof (induction items arbitrary: d)
  case Nil
  show ?case by simp
next
  case (Cons kv items)
  obtain k v where kv: "kv = (k, v)" by (cases kv)
  from Cons.prems kv have fresh: "k \<notin> fst ` set d" by auto
  from Cons.prems kv have "distinct (map fst ((d @ [(k, v)]) @ items))" by auto
  from Cons.IH [OF this] fresh kv show ?case by (simp add: dict_set_fresh)
qed

lemma distinct_dict_of_items: "distinct (map fst (dict_of_items items))"
  by (simp add: dict_of_items_def fold_dict_set_distinct)

lemma keys_dict_of_items: "fst ` set (dict_of_items items) = fst ` set items"
  by (simp add: dict_of_items_def fold_dict_set_keys)

lemma set_dict_of_items: "set (dict_of_items items) \<subseteq> set items"
  using fold_dict_set_subset [of items "[]"] by (simp add: dict_of_items_def)

lemma map_of_dict_of_items: "map_of (dict_of_items items) = map_of (rev items)"
  by (simp add: dict_of_items_def fold_dict_set_map_of)

lemma dict_of_items_distinct: "distinct (map fst items) \<Longrightarrow> dict_of_items items = items"
  using fold_dict_set_fresh [of "[]" items] by (simp add: dict_of_items_def)

lemma length_dict_of_items: "length (dict_of_items items) = card (fst ` set items)"
proof -
  have "length (dict_of_items items) = length (map fst (dict_of_items items))" by simp
  also have "\<dots> = card (set (map fst (dict_of_items items)))"
    by (rule distinct_card [symmetric]) (rule distinct_dict_of_items)
  also have "\<dots> = card (fst ` set items)" by (simp add: keys_dict_of_items)
  finally show ?thesis .
qed

lemma map_of_rev_last:
  "c \<in> fst ` set items \<Longrightarrow>
   map_of (rev items) c = Some (snd (last (filter (\<lambda>kv. fst kv = c) items)))"
proof (induction items rule: rev_induct)
  case Nil
  then show ?case by simp
next
  case (snoc kv items)
  show ?case
  proof (cases "fst kv = c")
    case True
    then show ?thesis by (cases kv) simp
  next
    case False
    with snoc.prems have "c \<in> fst ` set items" by auto
    with snoc.IH False show ?thesis by (cases kv) simp
  qed
qed

lemma filter_key_once:
  "distinct (map fst d) \<Longrightarrow> c \<in> fst ` set d \<Longrightarrow> length (filter (\<lambda>kv. fst kv = c) d) = 1"
proof (induction d)
  case Nil
  then show ?case by simp
next
  case (Cons kv d)
  show ?case
  proof (cases "fst kv = c")
    case True
    with Cons.prems have "c \<notin> fst ` set d" by auto
    then have "filter (\<lambda>kv. fst kv = c) d = []" by (auto simp: filter_empty_conv)
    with True show ?thesis by simp
  next
    case False
    with Cons show ?thesis by auto
  qed
qed

section \<open>Properties of the tree transformer\<close>

lemma all_digits_isdigit: "all_digits k \<Longrightarrow> isdigit U k"
proof -
  assume d: "all_digits k"
  have "is_digit U c" if "c \<in> set k" for c
  proof -
    from d that have c: "c \<in> set (str ''0123456789'')" by (auto simp: all_digits_def)
    then have "c < 128" by (auto simp: str_def)
    with c show ?thesis by (simp only: is_digit_iff)
  qed
  with d show ?thesis by (simp add: isdigit_def all_digits_def list_all_iff)
qed

lemma extract_keys_object:
  "extract_keys U (JObject kvs) =
     (\<Union>kv \<in> set kvs. (if isdigit U (sanitize_key U (fst kv)) then {}
                         else {sanitize_key U (fst kv)})
                        \<union> extract_keys U (snd kv))"
proof -
  have "fold (\<lambda>(k, v) keys.
               (if \<not> isdigit U (sanitize_key U k) then insert (sanitize_key U k) keys else keys)
                 \<union> extract_keys U v) kvs A
        = A \<union> (\<Union>kv \<in> set kvs. (if isdigit U (sanitize_key U (fst kv)) then {}
                                    else {sanitize_key U (fst kv)})
                                   \<union> extract_keys U (snd kv))" for A
    by (induction kvs arbitrary: A) (auto split: if_splits)
  from this [of "{}"] show ?thesis by simp
qed

lemma extract_keys_array: "extract_keys U (JArray xs) = (\<Union>x \<in> set xs. extract_keys U x)"
proof -
  have "fold (\<lambda>i keys. keys \<union> extract_keys U i) xs A
        = A \<union> (\<Union>x \<in> set xs. extract_keys U x)" for A
    by (induction xs arbitrary: A) auto
  from this [of "{}"] show ?thesis by simp
qed

lemma extract_keys_not_isdigit: "k \<in> extract_keys U T \<Longrightarrow> \<not> isdigit U k"
proof (induction U T arbitrary: k rule: extract_keys.induct)
  case (1 U kvs)
  from "1.prems" obtain kv where kv: "kv \<in> set kvs"
    and k: "(\<not> isdigit U (sanitize_key U (fst kv)) \<and> k = sanitize_key U (fst kv))
            \<or> k \<in> extract_keys U (snd kv)"
    unfolding extract_keys_object by (auto split: if_splits)
  from k show ?case
  proof
    assume "\<not> isdigit U (sanitize_key U (fst kv)) \<and> k = sanitize_key U (fst kv)"
    then show ?thesis by simp
  next
    assume "k \<in> extract_keys U (snd kv)"
    with kv "1.IH" [of kv "fst kv" "snd kv"] show ?thesis by simp
  qed
next
  case (2 U xs)
  from "2.prems" obtain x where "x \<in> set xs" "k \<in> extract_keys U x"
    unfolding extract_keys_array by auto
  with "2.IH" show ?case by blast
qed simp_all

lemma anonymize_object:
  "anonymize U (JObject kvs) S =
     JObject (dict_of_items (map (\<lambda>kv. (sanitize_key U (fst kv), redacted_value U S kv)) kvs))"
proof -
  have "(\<lambda>(k, v). (sanitize_key U k,
                     if sanitize_key U k \<in> S then JString (str ''REDACTED'')
                     else anonymize U v S))
        = (\<lambda>kv. (sanitize_key U (fst kv), redacted_value U S kv))"
    by (rule ext) (simp add: redacted_value_def case_prod_beta)
  then show ?thesis by (simp only: anonymize.simps)
qed



lemma all_keys_anonymize:
  "k \<in> all_keys (anonymize U T S) \<Longrightarrow> \<not> isdigit U k \<Longrightarrow> k \<in> extract_keys U T"
proof (induction U T S arbitrary: k rule: anonymize.induct)
  case (1 U kvs S)
  let ?f = "\<lambda>kv. (sanitize_key U (fst kv), redacted_value U S kv)"
  from "1.prems"(1) obtain e where e: "e \<in> set (dict_of_items (map ?f kvs))"
    and k: "k = fst e \<or> k \<in> all_keys (snd e)"
    unfolding anonymize_object by auto
  from e set_dict_of_items [of "map ?f kvs"] have "e \<in> set (map ?f kvs)" by blast
  then obtain kv where kv: "kv \<in> set kvs" and ef: "e = ?f kv" by auto
  from k show ?case
  proof
    assume "k = fst e"
    with ef "1.prems"(2)
    have "k = sanitize_key U (fst kv)" "\<not> isdigit U (sanitize_key U (fst kv))"
      by simp_all
    with kv show ?thesis unfolding extract_keys_object by auto
  next
    assume inner: "k \<in> all_keys (snd e)"
    show ?thesis
    proof (cases "sanitize_key U (fst kv) \<in> S")
      case True
      with ef inner show ?thesis by (simp add: redacted_value_def)
    next
      case False
      with ef inner have "k \<in> all_keys (anonymize U (snd kv) S)"
        by (simp add: redacted_value_def)
      with False kv "1.IH" [of kv "fst kv" "snd kv" k] "1.prems"(2)
      have "k \<in> extract_keys U (snd kv)" by simp
      with kv show ?thesis unfolding extract_keys_object by auto
    qed
  qed
next
  case (2 U xs S)
  from "2.prems"(1) obtain x where x: "x \<in> set xs" "k \<in> all_keys (anonymize U x S)" by auto
  with "2.IH" [of x k] "2.prems"(2) have "k \<in> extract_keys U x" by simp
  with x show ?case unfolding extract_keys_array by auto
qed simp_all

section \<open>Claims about the tree transformer\<close>

text \<open>
  C1: the end-to-end scenario. Redacting the document with \<open>username\<close>, \<open>bio\<close> and
  \<open>posts\<close> with the redaction set \<open>{username}\<close> replaces the value of \<open>username\<close> by the
  marker and leaves the rest as it is; key discovery on the document yields the five keys
  \<open>username\<close>, \<open>bio\<close>, \<open>posts\<close>, \<open>text\<close>, \<open>likes\<close>.
\<close>

theorem end_to_end_scenario:
  "anonymize U
     (JObject [(str ''username'', JString (str ''bob'')), (str ''bio'', JString (str ''hi'')),
               (str ''posts'', JArray [JObject [(str ''text'', JString (str ''hello'')),
                                               (str ''likes'', JInt 5)]])])
     {str ''username''}
   = JObject [(str ''username'', JString (str ''REDACTED'')), (str ''bio'', JString (str ''hi'')),
              (str ''posts'', JArray [JObject [(str ''text'', JString (str ''hello'')),
                                              (str ''likes'', JInt 5)]])]
   \<and>
   extract_keys U
     (JObject [(str ''username'', JString (str ''bob'')), (str ''bio'', JString (str ''hi'')),
               (str ''posts'', JArray [JObject [(str ''text'', JString (str ''hello'')),
                                               (str ''likes'', JInt 5)]])])
   = {str ''username'', str ''bio'', str ''posts'', str ''text'', str ''likes''}"
  by code_simp




text \<open>
  C4, as the code has it: every key that appears in the redacted tree and for which
  \<open>str.isdigit\<close> is false is a member of the keys discovered in the input tree.
\<close>

theorem discovery_complete_non_digit:
  assumes "k \<in> all_keys (anonymize U T S)" and "\<not> isdigit U k"
  shows "k \<in> extract_keys U T"
  using assms by (rule all_keys_anonymize)

theorem discovery_complete_non_digit_witness:
  "str ''Comments'' \<in> all_keys (anonymize unicode_excerpt (JObject [(str ''id'', JInt 7),
       ([0xB2], JArray [JObject [(str ''comments: mine'', JString (str ''x''))]])]) {str ''id''}) \<and>
   \<not> isdigit unicode_excerpt (str ''Comments'') \<and>
   str ''Comments'' \<in> extract_keys unicode_excerpt (JObject [(str ''id'', JInt 7),
       ([0xB2], JArray [JObject [(str ''comments: mine'', JString (str ''x''))]])])"
proof -
  have h1: "str ''Comments'' \<in> all_keys (anonymize unicode_excerpt (JObject [(str ''id'', JInt 7),
       ([0xB2], JArray [JObject [(str ''comments: mine'', JString (str ''x''))]])]) {str ''id''})"
    by code_simp
  have h2: "\<not> isdigit unicode_excerpt (str ''Comments'')" by code_simp
  from discovery_complete_non_digit [OF h1 h2] h1 h2 show ?thesis by (intro conjI)
qed

text \<open>
  C4, as the specification states it, fails: the key \<open>0\<close> appears in the redacted tree, in
  a branch that is not redacted, and key discovery on the input leaves it out.
\<close>

theorem discovery_complete_counterexample:
  "str ''0'' \<in> all_keys (anonymize unicode_excerpt (JObject [(str ''0'', JString (str ''a''))]) {}) \<and>
   str ''0'' \<notin> extract_keys unicode_excerpt (JObject [(str ''0'', JString (str ''a''))])"
  by code_simp

text \<open>
  C8: key discovery on the object with the keys \<open>0\<close> and \<open>1\<close> returns the empty set, and
  no key composed entirely of decimal digits is in the discovery result of any tree.
\<close>

theorem extract_keys_no_digit_keys:
  "extract_keys U (JObject [(str ''0'', JString (str ''a'')), (str ''1'', JString (str ''b''))]) = {} \<and>
   (k \<in> extract_keys U T \<longrightarrow> \<not> all_digits k)"
proof
  show "extract_keys U (JObject [(str ''0'', JString (str ''a'')), (str ''1'', JString (str ''b''))]) = {}"
    by code_simp
  show "k \<in> extract_keys U T \<longrightarrow> \<not> all_digits k"
    using extract_keys_not_isdigit [of k U T] all_digits_isdigit [of k U] by blast
qed

theorem extract_keys_no_digit_keys_witness:
  "str ''likes'' \<in> extract_keys unicode_excerpt
       (JObject [(str ''2024'', JObject [(str ''likes'', JInt 5)])]) \<and>
   \<not> all_digits (str ''likes'') \<and>
   str ''2024'' \<notin> extract_keys unicode_excerpt
       (JObject [(str ''2024'', JObject [(str ''likes'', JInt 5)])])"
proof -
  have h: "str ''likes'' \<in> extract_keys unicode_excerpt
       (JObject [(str ''2024'', JObject [(str ''likes'', JInt 5)])])"
    by code_simp
  have d: "all_digits (str ''2024'')" by code_simp
  from extract_keys_no_digit_keys [of unicode_excerpt "str ''likes''"
      "JObject [(str ''2024'', JObject [(str ''likes'', JInt 5)])]"] h
  have "\<not> all_digits (str ''likes'')" by blast
  moreover from extract_keys_no_digit_keys [of unicode_excerpt "str ''2024''"
      "JObject [(str ''2024'', JObject [(str ''likes'', JInt 5)])]"] d
  have "str ''2024'' \<notin> extract_keys unicode_excerpt
       (JObject [(str ''2024'', JObject [(str ''likes'', JInt 5)])])" by blast
  ultimately show ?thesis using h by (intro conjI)
qed
text \<open>
  C10: when two distinct raw keys of one object have the same canonical key \<open>c\<close>, the
  redacted object holds exactly one entry under \<open>c\<close>; its value is the redacted value of
  the last raw key of the object, in insertion order, whose canonical key is \<open>c\<close>; and
  the redacted object has fewer entries than the input object.
\<close>

theorem anonymize_collision:
  assumes "(k1, v1) \<in> set kvs" and "(k2, v2) \<in> set kvs" and "k1 \<noteq> k2"
    and "sanitize_key U k1 = c" and "sanitize_key U k2 = c"
  shows "length (filter (\<lambda>kv. fst kv = c) (object_items (anonymize U (JObject kvs) S))) = 1 \<and>
         map_of (object_items (anonymize U (JObject kvs) S)) c =
           Some (redacted_value U S (last (filter (\<lambda>kv. sanitize_key U (fst kv) = c) kvs))) \<and>
         length (object_items (anonymize U (JObject kvs) S)) < length kvs"
proof -
  let ?f = "\<lambda>kv. (sanitize_key U (fst kv), redacted_value U S kv)"
  let ?items = "map ?f kvs"
  let ?d = "dict_of_items ?items"
  have out: "object_items (anonymize U (JObject kvs) S) = ?d"
    by (simp only: anonymize_object object_items.simps)
  from assms(1,4) have c_in: "c \<in> fst ` set ?items" by force
  have once: "length (filter (\<lambda>kv. fst kv = c) ?d) = 1"
    using distinct_dict_of_items c_in by (intro filter_key_once) (simp_all only: keys_dict_of_items)
  have sel: "filter (\<lambda>kv. fst kv = c) ?items
             = map ?f (filter (\<lambda>kv. sanitize_key U (fst kv) = c) kvs)"
    by (simp add: filter_map comp_def)
  from assms(1,4) have ne: "filter (\<lambda>kv. sanitize_key U (fst kv) = c) kvs \<noteq> []"
    by (force simp: filter_empty_conv)
  have "map_of ?d c = map_of (rev ?items) c"
    by (simp only: map_of_dict_of_items)
  also have "\<dots> = Some (snd (last (filter (\<lambda>kv. fst kv = c) ?items)))"
    using c_in by (rule map_of_rev_last)
  also have "\<dots> = Some (redacted_value U S (last (filter (\<lambda>kv. sanitize_key U (fst kv) = c) kvs)))"
    unfolding sel using ne by (simp add: last_map)
  finally have val: "map_of ?d c =
      Some (redacted_value U S (last (filter (\<lambda>kv. sanitize_key U (fst kv) = c) kvs)))" .
  have "\<not> distinct (map (\<lambda>kv. sanitize_key U (fst kv)) kvs)"
  proof
    assume "distinct (map (\<lambda>kv. sanitize_key U (fst kv)) kvs)"
    then have "inj_on (\<lambda>kv. sanitize_key U (fst kv)) (set kvs)" by (simp add: distinct_map)
    from inj_onD [OF this _ assms(1,2)] assms(4,5) have "(k1, v1) = (k2, v2)" by simp
    with assms(3) show False by simp
  qed
  then have "card (set (map (\<lambda>kv. sanitize_key U (fst kv)) kvs))
             \<noteq> length (map (\<lambda>kv. sanitize_key U (fst kv)) kvs)"
    using card_distinct by blast
  moreover have "card (set (map (\<lambda>kv. sanitize_key U (fst kv)) kvs))
             \<le> length (map (\<lambda>kv. sanitize_key U (fst kv)) kvs)"
    by (rule card_length)
  ultimately have "card (set (map (\<lambda>kv. sanitize_key U (fst kv)) kvs)) < length kvs" by simp
  moreover have "fst ` set ?items = set (map (\<lambda>kv. sanitize_key U (fst kv)) kvs)"
    by (simp add: image_image)
  ultimately have fewer: "length ?d < length kvs"
    by (simp only: length_dict_of_items)
  from once val fewer show ?thesis unfolding out by (intro conjI)
qed

theorem anonymize_collision_witness:
  "(str ''a'', JInt 1) \<in> set [(str ''a'', JInt 1), (str ''b'', JInt 3), (str ''a:'', JInt 2)] \<and>
   (str ''a:'', JInt 2) \<in> set [(str ''a'', JInt 1), (str ''b'', JInt 3), (str ''a:'', JInt 2)] \<and>
   str ''a'' \<noteq> str ''a:'' \<and>
   sanitize_key unicode_excerpt (str ''a'') = str ''a'' \<and>
   sanitize_key unicode_excerpt (str ''a:'') = str ''a'' \<and>
   anonymize unicode_excerpt
     (JObject [(str ''a'', JInt 1), (str ''b'', JInt 3), (str ''a:'', JInt 2)]) {}
     = JObject [(str ''a'', JInt 2), (str ''b'', JInt 3)] \<and>
   map_of (object_items (anonymize unicode_excerpt
       (JObject [(str ''a'', JInt 1), (str ''b'', JInt 3), (str ''a:'', JInt 2)]) {})) (str ''a'')
     = Some (redacted_value unicode_excerpt {}
         (last (filter (\<lambda>kv. sanitize_key unicode_excerpt (fst kv) = str ''a'')
                       [(str ''a'', JInt 1), (str ''b'', JInt 3), (str ''a:'', JInt 2)])))"
proof -
  have h1: "(str ''a'', JInt 1) \<in> set [(str ''a'', JInt 1), (str ''b'', JInt 3), (str ''a:'', JInt 2)]"
    by simp
  have h2: "(str ''a:'', JInt 2) \<in> set [(str ''a'', JInt 1), (str ''b'', JInt 3), (str ''a:'', JInt 2)]"
    by simp
  have h3: "str ''a'' \<noteq> str ''a:''" by code_simp
  have h4: "sanitize_key unicode_excerpt (str ''a'') = str ''a''" by code_simp
  have h5: "sanitize_key unicode_excerpt (str ''a:'') = str ''a''" by code_simp
  have res: "anonymize unicode_excerpt
     (JObject [(str ''a'', JInt 1), (str ''b'', JInt 3), (str ''a:'', JInt 2)]) {}
     = JObject [(str ''a'', JInt 2), (str ''b'', JInt 3)]" by code_simp
  note inst = anonymize_collision [OF h1 h2 h3 h4 h5, of "{}"]
  from inst have "map_of (object_items (anonymize unicode_excerpt
       (JObject [(str ''a'', JInt 1), (str ''b'', JInt 3), (str ''a:'', JInt 2)]) {})) (str ''a'')
     = Some (redacted_value unicode_excerpt {}
         (last (filter (\<lambda>kv. sanitize_key unicode_excerpt (fst kv) = str ''a'')
                       [(str ''a'', JInt 1), (str ''b'', JInt 3), (str ''a:'', JInt 2)])))"
    by (elim conjE)
  with h1 h2 h3 h4 h5 res show ?thesis by (intro conjI)
qed

lemma set_zip_map_self: "set (zip xs (map f xs)) = (\<lambda>x. (x, f x)) ` set xs"
  by (induction xs) auto

lemma same_shape_anonymize: "collision_free U S T \<Longrightarrow> same_shape U S T (anonymize U T S)"
proof (induction U T S rule: anonymize.induct)
  case (1 U kvs S)
  let ?f = "\<lambda>kv. (sanitize_key U (fst kv), redacted_value U S kv)"
  from "1.prems" have dist: "distinct (map (\<lambda>kv. sanitize_key U (fst kv)) kvs)"
    by (simp only: collision_free.simps)
  from "1.prems" have inner: "collision_free U S (snd kv)"
    if "kv \<in> set kvs" "sanitize_key U (fst kv) \<notin> S" for kv
    using that by (simp only: collision_free.simps) blast
  have "map fst (map ?f kvs) = map (\<lambda>kv. sanitize_key U (fst kv)) kvs" by simp
  with dist have "distinct (map fst (map ?f kvs))" by (simp only:)
  then have "dict_of_items (map ?f kvs) = map ?f kvs" by (rule dict_of_items_distinct)
  then have out: "anonymize U (JObject kvs) S = JObject (map ?f kvs)"
    by (simp only: anonymize_object)
  have "same_shape U S (JObject kvs) (JObject (map ?f kvs))"
    unfolding same_shape.simps
  proof (intro conjI ballI)
    show "length (map ?f kvs) = length kvs" by simp
  next
    fix p
    assume "p \<in> set (zip kvs (map ?f kvs))"
    then obtain kv where kv: "kv \<in> set kvs" and p: "p = (kv, ?f kv)"
      unfolding set_zip_map_self by blast
    have "same_shape U S (snd kv) (anonymize U (snd kv) S)" if "sanitize_key U (fst kv) \<notin> S"
      using "1.IH" [of kv "fst kv" "snd kv"] kv that inner [OF kv that] by simp
    then show "case p of (kv, kv') \<Rightarrow>
            fst kv' = sanitize_key U (fst kv) \<and>
            (if sanitize_key U (fst kv) \<in> S then snd kv' = JString (str ''REDACTED'')
             else same_shape U S (snd kv) (snd kv'))"
      unfolding p by (simp add: redacted_value_def)
  qed
  with out show ?case by (simp only:)
next
  case (2 U xs S)
  have "same_shape U S (JArray xs) (JArray (map (\<lambda>i. anonymize U i S) xs))"
    unfolding same_shape.simps
  proof (intro conjI ballI)
    show "length (map (\<lambda>i. anonymize U i S) xs) = length xs" by simp
  next
    fix p
    assume "p \<in> set (zip xs (map (\<lambda>i. anonymize U i S) xs))"
    then obtain x where x: "x \<in> set xs" and p: "p = (x, anonymize U x S)"
      unfolding set_zip_map_self by blast
    from "2.prems" x have "collision_free U S x" by simp
    with "2.IH" [OF x] show "case p of (x, x') \<Rightarrow> same_shape U S x x'"
      unfolding p by simp
  qed
  then show ?case by (simp only: anonymize.simps)
qed (simp_all only: anonymize.simps same_shape.simps)

text \<open>
  C3, as the code has it: when no two keys of one object share a canonical form, in every
  object that redaction reaches, the redacted tree is structurally isomorphic to the input:
  each object keeps the number and the order of its entries, every key is replaced by its
  canonical form, the value of a key in the redaction set is the marker and every other
  value is redacted recursively; arrays keep their length and scalars their value.
\<close>

theorem anonymize_same_shape:
  assumes "collision_free U S T"
  shows "same_shape U S T (anonymize U T S)"
  using assms by (rule same_shape_anonymize)

theorem anonymize_same_shape_witness:
  "collision_free unicode_excerpt {str ''username''}
     (JObject [(str ''username'', JString (str ''bob'')), (str ''story: summer'', JString (str ''hi'')),
               (str ''posts:'', JArray [JObject [(str ''text'', JString (str ''hello'')),
                                                (str ''likes'', JInt 5)]])]) \<and>
   same_shape unicode_excerpt {str ''username''}
     (JObject [(str ''username'', JString (str ''bob'')), (str ''story: summer'', JString (str ''hi'')),
               (str ''posts:'', JArray [JObject [(str ''text'', JString (str ''hello'')),
                                                (str ''likes'', JInt 5)]])])
     (anonymize unicode_excerpt
     (JObject [(str ''username'', JString (str ''bob'')), (str ''story: summer'', JString (str ''hi'')),
               (str ''posts:'', JArray [JObject [(str ''text'', JString (str ''hello'')),
                                                (str ''likes'', JInt 5)]])])
       {str ''username''})"
proof -
  have h: "collision_free unicode_excerpt {str ''username''}
     (JObject [(str ''username'', JString (str ''bob'')), (str ''story: summer'', JString (str ''hi'')),
               (str ''posts:'', JArray [JObject [(str ''text'', JString (str ''hello'')),
                                                (str ''likes'', JInt 5)]])])"
    by code_simp
  from anonymize_same_shape [OF h] h show ?thesis by (intro conjI)
qed

text \<open>
  C3, as the specification states it, fails: the keys \<open>a\<close> and \<open>a:\<close> of one object have
  the same canonical form, so the redacted object has one entry where the input has two,
  and the entry of \<open>a\<close> is gone.
\<close>

theorem anonymize_same_shape_counterexample:
  "anonymize unicode_excerpt (JObject [(str ''a'', JInt 1), (str ''a:'', JInt 2)]) {}
     = JObject [(str ''a'', JInt 2)] \<and>
   length (object_items
       (anonymize unicode_excerpt (JObject [(str ''a'', JInt 1), (str ''a:'', JInt 2)]) {}))
     \<noteq> length (object_items (JObject [(str ''a'', JInt 1), (str ''a:'', JInt 2)])) \<and>
   \<not> same_shape unicode_excerpt {} (JObject [(str ''a'', JInt 1), (str ''a:'', JInt 2)])
        (anonymize unicode_excerpt (JObject [(str ''a'', JInt 1), (str ''a:'', JInt 2)]) {})"
  by code_simp

end
